theory Spec2Isabelle
  imports Main
begin

section \<open>JavaScript strings\<close>

text \<open>
  A JavaScript string is a sequence of UTF-16 code units. The query engine
  (\<^verbatim>\<open>server/query.js\<close>) is modelled over strings whose code units lie in
  U+0000..U+00FF: a \<^typ>\<open>char\<close> is read as the code unit with the same number.
  On that range \<^verbatim>\<open>toLowerCase\<close> maps one unit to one unit, and the white space
  of \<^verbatim>\<open>\s\<close> and \<^verbatim>\<open>trim\<close> is TAB, LF, VT, FF, CR, SPACE and NBSP.
\<close>

definition is_space :: "char \<Rightarrow> bool" where
  "is_space c = ((of_char c :: nat) \<in> set [9, 10, 11, 12, 13, 32, 160])"

definition lower_char :: "char \<Rightarrow> char" where
  "lower_char c =
     (let n = of_char c :: nat in
      if (65 \<le> n \<and> n \<le> 90) \<or> (192 \<le> n \<and> n \<le> 222 \<and> n \<noteq> 215)
      then char_of (n + 32) else c)"

definition toLowerCase :: "string \<Rightarrow> string" where
  "toLowerCase s = map lower_char s"

text \<open>\<^verbatim>\<open>s.trim()\<close>, for any notion of white space.\<close>

definition trim_with :: "('a \<Rightarrow> bool) \<Rightarrow> 'a list \<Rightarrow> 'a list" where
  "trim_with sp s = rev (dropWhile sp (rev (dropWhile sp s)))"

definition trim :: "string \<Rightarrow> string" where
  "trim s = trim_with is_space s"

text \<open>\<^verbatim>\<open>h.startsWith(w)\<close>, \<^verbatim>\<open>h.includes(w)\<close> and \<^verbatim>\<open>h.indexOf(w)\<close>
  (\<open>None\<close> is the result \<^verbatim>\<open>-1\<close>).\<close>

definition startsWith :: "'a list \<Rightarrow> 'a list \<Rightarrow> bool" where
  "startsWith h w = (take (length w) h = w)"

fun str_includes :: "'a list \<Rightarrow> 'a list \<Rightarrow> bool" where
  "str_includes [] w = (w = [])"
| "str_includes (x # xs) w = (if startsWith (x # xs) w then True else str_includes xs w)"

fun indexOf :: "'a list \<Rightarrow> 'a list \<Rightarrow> nat option" where
  "indexOf [] w = (if w = [] then Some 0 else None)"
| "indexOf (x # xs) w =
     (if startsWith (x # xs) w then Some 0 else map_option Suc (indexOf xs w))"

text \<open>\<^verbatim>\<open>xs.join(sep)\<close> on strings.\<close>

fun join :: "'a list \<Rightarrow> 'a list list \<Rightarrow> 'a list" where
  "join sep [] = []"
| "join sep [x] = x"
| "join sep (x # y # ys) = x @ sep @ join sep (y # ys)"

text \<open>The decimal numeral of a number, as \<^verbatim>\<open>String(n)\<close> and template literals
  print an integer.\<close>

definition digit :: "nat \<Rightarrow> char" where
  "digit d = char_of (48 + d)"

function show_nat :: "nat \<Rightarrow> string" where
  "show_nat n = (if n < 10 then [digit n] else show_nat (n div 10) @ [digit (n mod 10)])"
  by pat_completeness auto
termination
  by (relation "measure (\<lambda>n. n)") auto

definition show_int :: "int \<Rightarrow> string" where
  "show_int i = (if i < 0 then CHR ''-'' # show_nat (nat (- i)) else show_nat (nat i))"

section \<open>Records of the dataset\<close>

text \<open>
  The records are what \<^verbatim>\<open>JSON.parse\<close> returns: null, booleans, numbers (the
  integers; the dataset has no fractions), strings, arrays and objects. An
  object is the list of its own properties in the order \<^verbatim>\<open>Object.entries\<close>
  gives them, with distinct keys. \<open>JUndef\<close> is \<^verbatim>\<open>undefined\<close>, which the
  resolver produces for a property that is not there.
\<close>

datatype jsval =
    JUndef
  | JNull
  | JBool bool
  | JNum int
  | JStr string
  | JArr "jsval list"
  | JObj "(string \<times> jsval) list"

fun nullish :: "jsval \<Rightarrow> bool" where
  "nullish JUndef = True"
| "nullish JNull = True"
| "nullish _ = False"

text \<open>The truth value of \<^verbatim>\<open>x ? a : b\<close>.\<close>

fun truthy :: "jsval \<Rightarrow> bool" where
  "truthy JUndef = False"
| "truthy JNull = False"
| "truthy (JBool b) = b"
| "truthy (JNum n) = (n \<noteq> 0)"
| "truthy (JStr s) = (s \<noteq> [])"
| "truthy (JArr xs) = True"
| "truthy (JObj kvs) = True"

text \<open>
  \<^verbatim>\<open>String(v)\<close>. An array prints its elements joined by commas, null and
  undefined elements as the empty string; an object of the dataset prints as
  \<^verbatim>\<open>[object Object]\<close> (no record defines a property named \<^verbatim>\<open>toString\<close>).
\<close>

fun toStr :: "jsval \<Rightarrow> string" where
  "toStr JUndef = ''undefined''"
| "toStr JNull = ''null''"
| "toStr (JBool b) = (if b then ''true'' else ''false'')"
| "toStr (JNum n) = show_int n"
| "toStr (JStr s) = s"
| "toStr (JArr xs) = join '','' (map (\<lambda>x. if nullish x then [] else toStr x) xs)"
| "toStr (JObj kvs) = ''[object Object]''"

text \<open>\<^verbatim>\<open>const norm = (s) => String(s ?? "").toLowerCase().trim()\<close>\<close>

definition norm :: "jsval \<Rightarrow> string" where
  "norm s = trim (toLowerCase (toStr (if nullish s then JStr [] else s)))"

text \<open>
  \<^verbatim>\<open>v[part]\<close> for a value that is neither null nor undefined: the own property
  of an object, and \<^verbatim>\<open>undefined\<close> otherwise. Built-in members (\<^verbatim>\<open>length\<close>,
  the indices of a string, the methods of a prototype) are not data of the
  records and are not modelled; no path of the filter table names one.
\<close>

fun getProp :: "jsval \<Rightarrow> string \<Rightarrow> jsval" where
  "getProp (JObj kvs) k = (case map_of kvs k of Some v \<Rightarrow> v | None \<Rightarrow> JUndef)"
| "getProp v k = JUndef"

section \<open>The term flattener\<close>

text \<open>
  \<^verbatim>\<open>flatten(obj, prefix = "")\<close>: one string \<^verbatim>\<open>path=value\<close> for every scalar
  leaf; \<open>flatten_elems\<close> is the \<^verbatim>\<open>flatMap\<close> over an array with its index,
  \<open>flatten_fields\<close> the loop over \<^verbatim>\<open>Object.entries\<close>.
\<close>

function flatten :: "jsval \<Rightarrow> string \<Rightarrow> string list" where
  "flatten JUndef prefix = []"
| "flatten JNull prefix = []"
| "flatten (JBool b) prefix = [prefix @ ''='' @ toStr (JBool b)]"
| "flatten (JNum n) prefix = [prefix @ ''='' @ toStr (JNum n)]"
| "flatten (JStr s) prefix = [prefix @ ''='' @ toStr (JStr s)]"
| "flatten (JArr xs) prefix =
     concat (map (\<lambda>(v, i). flatten v (prefix @ ''['' @ show_nat i @ '']''))
                 (zip xs [0..<length xs]))"
| "flatten (JObj kvs) prefix =
     concat (map (\<lambda>(k, v). flatten v (if prefix \<noteq> [] then prefix @ ''.'' @ k else k)) kvs)"
  by pat_completeness auto
termination
proof (relation "measure (\<lambda>(v, p). size v)")
  show "wf (measure (\<lambda>(v, p). size v))" by simp
next
  fix xs :: "jsval list" and prefix :: string and x :: "jsval \<times> nat" and v i
  assume "x \<in> set (zip xs [0..<length xs])" and "(v, i) = x"
  then have "v \<in> set xs" by (auto dest: set_zip_leftD)
  then have "size v < Suc (size_list size xs)"
    by (induction xs) auto
  then show "((v, prefix @ ''['' @ show_nat i @ '']''), JArr xs, prefix) \<in> measure (\<lambda>(v, p). size v)"
    by simp
next
  fix kvs :: "(string \<times> jsval) list" and prefix :: string and x :: "string \<times> jsval" and k v
  assume "x \<in> set kvs" and "(k, v) = x"
  then have "(k, v) \<in> set kvs" by simp
  then have "size v < Suc (size_list (size_prod (\<lambda>_. 0) size) kvs)"
    by (induction kvs) auto
  then show "((v, if prefix \<noteq> [] then prefix @ ''.'' @ k else k), JObj kvs, prefix)
      \<in> measure (\<lambda>(v, p). size v)"
    by simp
qed

section \<open>The query parser\<close>

datatype error = TypeError

record query =
  terms :: "string list"
  filters :: "(string \<times> string list) list"

text \<open>\<^verbatim>\<open>norm\<close> applied to a string.\<close>

definition norm_str :: "string \<Rightarrow> string" where
  "norm_str s = norm (JStr s)"

definition dquote :: char where
  "dquote = CHR 0x22"

text \<open>
  \<^verbatim>\<open>q.match(/"[^"]+"|\S+/g)\<close>: at each position the quoted alternative is
  tried first (a quote, one or more characters that are not a quote, a quote),
  then a maximal run of characters that are not white space; a position where
  neither matches is skipped.
\<close>

function tokenize :: "string \<Rightarrow> string list" where
  "tokenize [] = []"
| "tokenize (c # cs) =
     (if c = dquote \<and> takeWhile (\<lambda>x. x \<noteq> dquote) cs \<noteq> []
         \<and> dropWhile (\<lambda>x. x \<noteq> dquote) cs \<noteq> []
      then (c # takeWhile (\<lambda>x. x \<noteq> dquote) cs @ [dquote])
             # tokenize (tl (dropWhile (\<lambda>x. x \<noteq> dquote) cs))
      else if is_space c then tokenize cs
      else (c # takeWhile (\<lambda>x. \<not> is_space x) cs)
             # tokenize (dropWhile (\<lambda>x. \<not> is_space x) cs))"
  by pat_completeness auto
termination
proof (relation "measure length")
  show "wf (measure length)" by simp
next
  fix c :: char and cs :: string
  have "length (tl (dropWhile (\<lambda>x. x \<noteq> dquote) cs)) \<le> length cs"
    using length_dropWhile_le [of "\<lambda>x. x \<noteq> dquote" cs] by simp
  then show "(tl (dropWhile (\<lambda>x. x \<noteq> dquote) cs), c # cs) \<in> measure length"
    by simp
next
  fix c :: char and cs :: string
  show "(cs, c # cs) \<in> measure length" by simp
next
  fix c :: char and cs :: string
  have "length (dropWhile (\<lambda>x. \<not> is_space x) cs) \<le> length cs"
    by (rule length_dropWhile_le)
  then show "(dropWhile (\<lambda>x. \<not> is_space x) cs, c # cs) \<in> measure length"
    by simp
qed

text \<open>\<^verbatim>\<open>t.replace(/^"|"$/g, "")\<close>: a quote at the start is removed, then a
  quote at the end of what is left.\<close>

definition strip_quotes :: "string \<Rightarrow> string" where
  "strip_quotes s =
     (let s1 = (if s \<noteq> [] \<and> hd s = dquote then tl s else s)
      in if s1 \<noteq> [] \<and> last s1 = dquote then butlast s1 else s1)"

text \<open>
  \<^verbatim>\<open>token.match(/^([a-zA-Z_]+):(.+)$/)\<close>: the key is the run of letters and
  underscores the token starts with, a colon follows it, and the value is the
  rest, which is not empty and has no line terminator (\<^verbatim>\<open>.\<close> does not match
  LF or CR, and \<^verbatim>\<open>$\<close> is the end of the token).
\<close>

definition is_key_char :: "char \<Rightarrow> bool" where
  "is_key_char c =
     (let n = of_char c :: nat
      in if 65 \<le> n \<and> n \<le> 90 then True else if 97 \<le> n \<and> n \<le> 122 then True else n = 95)"

definition is_line_terminator :: "char \<Rightarrow> bool" where
  "is_line_terminator c = ((of_char c :: nat) \<in> set [10, 13])"

definition match_kv :: "string \<Rightarrow> (string \<times> string) option" where
  "match_kv token =
     (case dropWhile is_key_char token of
        [] \<Rightarrow> None
      | c # v \<Rightarrow>
          if takeWhile is_key_char token \<noteq> [] \<and> c = CHR '':'' \<and> v \<noteq> []
             \<and> list_all (\<lambda>x. \<not> is_line_terminator x) v
          then Some (takeWhile is_key_char token, v) else None)"

text \<open>
  \<^verbatim>\<open>filters\<close> is created as \<^verbatim>\<open>{}\<close>, so \<^verbatim>\<open>filters[key]\<close> also finds what
  \<^verbatim>\<open>Object.prototype\<close> defines. These are its property names.
\<close>

definition object_prototype_names :: "string list" where
  "object_prototype_names =
     [''constructor'', ''__defineGetter__'', ''__defineSetter__'', ''hasOwnProperty'',
      ''__lookupGetter__'', ''__lookupSetter__'', ''isPrototypeOf'',
      ''propertyIsEnumerable'', ''toString'', ''valueOf'', ''__proto__'',
      ''toLocaleString'']"

text \<open>\<^verbatim>\<open>filters[key].push(val)\<close> on a key the object owns.\<close>

fun push_filter :: "string \<Rightarrow> string \<Rightarrow> (string \<times> string list) list
    \<Rightarrow> (string \<times> string list) list" where
  "push_filter key val [] = []"
| "push_filter key val ((k, vs) # fs) =
     (if k = key then (k, vs @ [val]) # fs else (k, vs) # push_filter key val fs)"

text \<open>
  The body of the loop over the tokens. For a key the object does not own,
  \<^verbatim>\<open>!filters[key]\<close> holds unless the prototype defines the name; then
  \<^verbatim>\<open>filters[key]\<close> is a function or an object without \<^verbatim>\<open>push\<close>, and the call
  raises a TypeError.
\<close>

definition parse_token :: "query \<Rightarrow> string \<Rightarrow> error + query" where
  "parse_token q t =
     (let token = strip_quotes t in
      case match_kv token of
        Some (k, v) \<Rightarrow>
          (let key = norm_str k; val = norm_str (strip_quotes v) in
           if key \<in> set (map fst (filters q))
           then Inr (q\<lparr>filters := push_filter key val (filters q)\<rparr>)
           else if key \<in> set object_prototype_names then Inl TypeError
           else Inr (q\<lparr>filters := filters q @ [(key, [val])]\<rparr>))
      | None \<Rightarrow> Inr (q\<lparr>terms := terms q @ [norm_str token]\<rparr>))"

fun parse_tokens :: "query \<Rightarrow> string list \<Rightarrow> error + query" where
  "parse_tokens q [] = Inr q"
| "parse_tokens q (t # ts) =
     (case parse_token q t of Inl e \<Rightarrow> Inl e | Inr q' \<Rightarrow> parse_tokens q' ts)"

definition parseQuery :: "string \<Rightarrow> error + query" where
  "parseQuery input =
     (let q = trim input in
      if q = [] then Inr \<lparr>terms = [], filters = []\<rparr>
      else parse_tokens \<lparr>terms = [], filters = []\<rparr> (tokenize q))"

section \<open>The filter-path table and the path resolver\<close>

definition FILTER_PATHS :: "(string \<times> string list) list" where
  "FILTER_PATHS =
     [(''name'', [''name.primary_name'', ''name.aliases'']),
      (''alias'', [''name.aliases'']),
      (''dob'', [''date_of_birth'']),
      (''gender'', [''gender'']),
      (''nationality'', [''nationality'']),
      (''race'', [''race'']),
      (''passport'', [''passport_numbers'']),
      (''phone'', [''contact.mobile_numbers'']),
      (''mobile'', [''contact.mobile_numbers'']),
      (''address'', [''contact.address'']),
      (''residency'', [''residency_status'']),
      (''vehicle'', [''vehicle_number'']),
      (''vehicle_number'', [''vehicle_number'']),
      (''vehicle_type'', [''vehicle_type'']),
      (''colour'', [''colour'']),
      (''color'', [''colour'']),
      (''owner'', [''registered_owner'']),
      (''risk'', [''risk_notes'']),
      (''source'', [''source'']),
      (''confidence'', [''confidence_level'']),
      (''received_date'', [''received_date'']),
      (''case_type'', [''case_type'']),
      (''status'', [''status'']),
      (''opened_date'', [''opened_date'']),
      (''entry_point'', [''entry_point'']),
      (''destination'', [''destination'']),
      (''departure_date'', [''departure_date'']),
      (''return_date'', [''return_date'']),
      (''arrival_date'', [''arrival_date'']),
      (''pattern'', [''travel_pattern_flag''])]"

text \<open>\<^verbatim>\<open>path.split(".")\<close>\<close>

fun split_on :: "char \<Rightarrow> string \<Rightarrow> string list" where
  "split_on d [] = [[]]"
| "split_on d (c # cs) =
     (if c = d then [] # split_on d cs
      else (c # hd (split_on d cs)) # tl (split_on d cs))"

text \<open>\<^verbatim>\<open>xs.flatMap(f)\<close>: an array that \<^verbatim>\<open>f\<close> returns is spliced in (one level),
  any other value is appended.\<close>

definition flatMap :: "(jsval \<Rightarrow> jsval) \<Rightarrow> jsval list \<Rightarrow> jsval list" where
  "flatMap f xs = concat (map (\<lambda>x. case f x of JArr ys \<Rightarrow> ys | v \<Rightarrow> [v]) xs)"

text \<open>One turn of the loop of \<^verbatim>\<open>getByPath\<close>, on a value that is not nullish.\<close>

fun step_path :: "string \<Rightarrow> jsval \<Rightarrow> jsval" where
  "step_path part (JArr xs) =
     JArr (flatMap (\<lambda>x. if truthy x then getProp x part else JUndef) xs)"
| "step_path part cur = getProp cur part"

fun walk_path :: "string list \<Rightarrow> jsval \<Rightarrow> jsval list" where
  "walk_path [] cur =
     (if nullish cur then [] else case cur of JArr xs \<Rightarrow> xs | v \<Rightarrow> [v])"
| "walk_path (part # parts) cur =
     (if nullish cur then [] else walk_path parts (step_path part cur))"

definition getByPath :: "jsval \<Rightarrow> string \<Rightarrow> jsval list" where
  "getByPath obj path = walk_path (split_on CHR ''.'' path) obj"

section \<open>Collection search\<close>

text \<open>The array \<^verbatim>\<open>hay\<close> of \<^verbatim>\<open>passesFilters\<close>: the values resolved through the
  paths of a key, normalised, the empty strings removed (\<^verbatim>\<open>filter(Boolean)\<close>).\<close>

definition hay_values :: "jsval \<Rightarrow> string list \<Rightarrow> string list" where
  "hay_values obj paths =
     filter (\<lambda>h. h \<noteq> []) (map norm (concat (map (getByPath obj) paths)))"

text \<open>
  \<^verbatim>\<open>passesFilters\<close>: the loop over \<^verbatim>\<open>Object.entries(filters)\<close>. For a key
  that the table does not own, \<^verbatim>\<open>FILTER_PATHS[k]\<close> is undefined and the key
  is skipped, unless \<^verbatim>\<open>Object.prototype\<close> defines the name: then
  \<^verbatim>\<open>paths.flatMap\<close> is not a function.
\<close>

fun passesFilters :: "jsval \<Rightarrow> (string \<times> string list) list \<Rightarrow> error + bool" where
  "passesFilters obj [] = Inr True"
| "passesFilters obj ((k, wantedVals) # fs) =
     (case map_of FILTER_PATHS k of
        None \<Rightarrow>
          if k \<in> set object_prototype_names then Inl TypeError
          else passesFilters obj fs
      | Some paths \<Rightarrow>
          if list_ex (\<lambda>w. list_ex (\<lambda>h. str_includes h w) (hay_values obj paths)) wantedVals
          then passesFilters obj fs
          else Inr False)"

definition passesTerms :: "jsval \<Rightarrow> string list \<Rightarrow> bool" where
  "passesTerms obj ts =
     (if ts = [] then True
      else list_all (\<lambda>t. list_ex (\<lambda>f. str_includes f t) (map norm_str (flatten obj []))) ts)"

text \<open>
  \<^verbatim>\<open>collectMatchedFields\<close>. \<open>walk\<close> returns the paths that the inner function
  adds to the set \<^verbatim>\<open>matches\<close>, in the order of the calls of \<^verbatim>\<open>add\<close>;
  \<open>set_add\<close> is \<^verbatim>\<open>Set.prototype.add\<close> on the insertion-ordered elements.
\<close>

definition leaf_matches :: "jsval \<Rightarrow> string \<Rightarrow> string list \<Rightarrow> string list" where
  "leaf_matches v path ts = (if list_ex (\<lambda>t. str_includes (norm v) t) ts then [path] else [])"

function walk :: "jsval \<Rightarrow> string \<Rightarrow> string list \<Rightarrow> string list" where
  "walk JUndef path ts = []"
| "walk JNull path ts = []"
| "walk (JBool b) path ts = leaf_matches (JBool b) path ts"
| "walk (JNum n) path ts = leaf_matches (JNum n) path ts"
| "walk (JStr s) path ts = leaf_matches (JStr s) path ts"
| "walk (JArr xs) path ts =
     concat (map (\<lambda>(v, i). walk v (path @ ''['' @ show_nat i @ '']'') ts)
                 (zip xs [0..<length xs]))"
| "walk (JObj kvs) path ts =
     concat (map (\<lambda>(k, v). walk v (if path \<noteq> [] then path @ ''.'' @ k else k) ts) kvs)"
  by pat_completeness auto
termination
proof (relation "measure (\<lambda>(v, p, ts). size v)")
  show "wf (measure (\<lambda>(v, p, ts). size v))" by simp
next
  fix xs :: "jsval list" and path :: string and ts :: "string list"
    and x :: "jsval \<times> nat" and v i
  assume "x \<in> set (zip xs [0..<length xs])" and "(v, i) = x"
  then have "v \<in> set xs" by (auto dest: set_zip_leftD)
  then have "size v < Suc (size_list size xs)"
    by (induction xs) auto
  then show "((v, path @ ''['' @ show_nat i @ '']'', ts), JArr xs, path, ts)
      \<in> measure (\<lambda>(v, p, ts). size v)"
    by simp
next
  fix kvs :: "(string \<times> jsval) list" and path :: string and ts :: "string list"
    and x :: "string \<times> jsval" and k v
  assume "x \<in> set kvs" and "(k, v) = x"
  then have "(k, v) \<in> set kvs" by simp
  then have "size v < Suc (size_list (size_prod (\<lambda>_. 0) size) kvs)"
    by (induction kvs) auto
  then show "((v, if path \<noteq> [] then path @ ''.'' @ k else k, ts), JObj kvs, path, ts)
      \<in> measure (\<lambda>(v, p, ts). size v)"
    by simp
qed

definition set_add :: "'a \<Rightarrow> 'a list \<Rightarrow> 'a list" where
  "set_add x acc = (if x \<in> set acc then acc else acc @ [x])"

definition collectMatchedFields :: "jsval \<Rightarrow> string list \<Rightarrow> string list" where
  "collectMatchedFields obj ts = fold set_add (walk obj [] ts) []"

text \<open>
  The object literal \<^verbatim>\<open>{ ...o, matchedTerms: terms, matchedFields: ... }\<close>:
  \<open>spread\<close> lists the own enumerable properties of \<^verbatim>\<open>o\<close>, and \<open>set_prop\<close>
  defines a property, in place when the object has the key already.
\<close>

fun spread :: "jsval \<Rightarrow> (string \<times> jsval) list" where
  "spread (JObj kvs) = kvs"
| "spread (JArr xs) = map (\<lambda>(v, i). (show_nat i, v)) (zip xs [0..<length xs])"
| "spread (JStr s) = map (\<lambda>(c, i). (show_nat i, JStr [c])) (zip s [0..<length s])"
| "spread v = []"

fun set_prop :: "string \<Rightarrow> jsval \<Rightarrow> (string \<times> jsval) list \<Rightarrow> (string \<times> jsval) list" where
  "set_prop k v [] = [(k, v)]"
| "set_prop k v ((k', v') # kvs) =
     (if k' = k then (k', v) # kvs else (k', v') # set_prop k v kvs)"

definition decorate :: "jsval \<Rightarrow> string list \<Rightarrow> jsval" where
  "decorate obj ts =
     JObj (set_prop ''matchedFields'' (JArr (map JStr (collectMatchedFields obj ts)))
            (set_prop ''matchedTerms'' (JArr (map JStr ts)) (spread obj)))"

text \<open>The callback of \<^verbatim>\<open>arr.map\<close> in \<^verbatim>\<open>searchCollection\<close>.\<close>

definition match_record :: "query \<Rightarrow> jsval \<Rightarrow> error + jsval" where
  "match_record q obj =
     (case passesFilters obj (filters q) of
        Inl e \<Rightarrow> Inl e
      | Inr ok \<Rightarrow>
          if \<not> ok then Inr JNull
          else if \<not> passesTerms obj (terms q) then Inr JNull
          else Inr (decorate obj (terms q)))"

fun map_err :: "('a \<Rightarrow> error + 'b) \<Rightarrow> 'a list \<Rightarrow> error + 'b list" where
  "map_err f [] = Inr []"
| "map_err f (x # xs) =
     (case f x of
        Inl e \<Rightarrow> Inl e
      | Inr y \<Rightarrow> (case map_err f xs of Inl e \<Rightarrow> Inl e | Inr ys \<Rightarrow> Inr (y # ys)))"

definition searchCollection :: "jsval list \<Rightarrow> string \<Rightarrow> error + jsval list" where
  "searchCollection arr input =
     (case parseQuery input of
        Inl e \<Rightarrow> Inl e
      | Inr q \<Rightarrow>
          (case map_err (match_record q) arr of
             Inl e \<Rightarrow> Inl e
           | Inr rs \<Rightarrow> Inr (filter truthy rs)))"

text \<open>The dataset \<^verbatim>\<open>data\<close>, loaded once when the module is loaded, and
  \<^verbatim>\<open>searchAll\<close> over its five collections.\<close>

record dataset =
  persons :: "jsval list"
  vehicles :: "jsval list"
  first_info_reports :: "jsval list"
  cases :: "jsval list"
  trips :: "jsval list"


section \<open>Collection search on the heap\<close>








section \<open>The document index\<close>

text \<open>
  \<^verbatim>\<open>server/docIndex.js\<close> writes the ellipsis U+2026 into its snippets, so its
  strings are modelled over the code units U+0000..U+00FF and U+2026. The
  ellipsis is not white space and has no other case.
\<close>

datatype uchar = L1 char | Ellipsis

type_synonym ustring = "uchar list"

abbreviation ustr :: "string \<Rightarrow> ustring" where
  "ustr s \<equiv> map L1 s"

fun u_space :: "uchar \<Rightarrow> bool" where
  "u_space (L1 c) = is_space c"
| "u_space Ellipsis = False"

fun u_lower :: "uchar \<Rightarrow> uchar" where
  "u_lower (L1 c) = L1 (lower_char c)"
| "u_lower Ellipsis = Ellipsis"

definition u_toLowerCase :: "ustring \<Rightarrow> ustring" where
  "u_toLowerCase s = map u_lower s"

definition u_trim :: "ustring \<Rightarrow> ustring" where
  "u_trim s = trim_with u_space s"

text \<open>
  The matches of \<^verbatim>\<open>/"([^"]+)"|(\S+)/g\<close> in \<^verbatim>\<open>parseQueryTokens\<close>, each given
  as \<^verbatim>\<open>m[1] ?? m[2]\<close>: the inside of a quoted span, or a run without white
  space.
\<close>

function scan_tokens :: "ustring \<Rightarrow> ustring list" where
  "scan_tokens [] = []"
| "scan_tokens (c # cs) =
     (if c = L1 dquote \<and> takeWhile (\<lambda>x. x \<noteq> L1 dquote) cs \<noteq> []
         \<and> dropWhile (\<lambda>x. x \<noteq> L1 dquote) cs \<noteq> []
      then takeWhile (\<lambda>x. x \<noteq> L1 dquote) cs
             # scan_tokens (tl (dropWhile (\<lambda>x. x \<noteq> L1 dquote) cs))
      else if u_space c then scan_tokens cs
      else (c # takeWhile (\<lambda>x. \<not> u_space x) cs)
             # scan_tokens (dropWhile (\<lambda>x. \<not> u_space x) cs))"
  by pat_completeness auto
termination
proof (relation "measure length")
  show "wf (measure length)" by simp
next
  fix c :: uchar and cs :: ustring
  have "length (tl (dropWhile (\<lambda>x. x \<noteq> L1 dquote) cs)) \<le> length cs"
    using length_dropWhile_le [of "\<lambda>x. x \<noteq> L1 dquote" cs] by simp
  then show "(tl (dropWhile (\<lambda>x. x \<noteq> L1 dquote) cs), c # cs) \<in> measure length"
    by simp
next
  fix c :: uchar and cs :: ustring
  show "(cs, c # cs) \<in> measure length" by simp
next
  fix c :: uchar and cs :: ustring
  have "length (dropWhile (\<lambda>x. \<not> u_space x) cs) \<le> length cs"
    by (rule length_dropWhile_le)
  then show "(dropWhile (\<lambda>x. \<not> u_space x) cs, c # cs) \<in> measure length"
    by simp
qed

text \<open>The second loop of \<^verbatim>\<open>parseQueryTokens\<close>: a token \<^verbatim>\<open>key:value\<close> also
  gives its two sides.\<close>

definition expand_token :: "ustring \<Rightarrow> ustring list" where
  "expand_token t =
     (case indexOf t [L1 CHR '':''] of
        None \<Rightarrow> [t]
      | Some idx \<Rightarrow>
          if 0 < idx \<and> idx + 1 < length t then [t, take idx t, drop (idx + 1) t] else [t])"

definition parseQueryTokens :: "ustring \<Rightarrow> ustring list" where
  "parseQueryTokens q =
     (let text = u_trim q in
      if text = [] then []
      else
        let tokens = filter (\<lambda>t. t \<noteq> []) (map u_trim (scan_tokens text));
            expanded = concat (map expand_token tokens)
        in fold set_add (filter (\<lambda>x. x \<noteq> []) (map u_trim expanded)) [])"

text \<open>\<^verbatim>\<open>t.replace(/\s+/g, " ")\<close>\<close>

function collapse_ws :: "ustring \<Rightarrow> ustring" where
  "collapse_ws [] = []"
| "collapse_ws (c # cs) =
     (if u_space c then L1 CHR '' '' # collapse_ws (dropWhile u_space cs)
      else c # collapse_ws cs)"
  by pat_completeness auto
termination
proof (relation "measure length")
  show "wf (measure length)" by simp
next
  fix c :: uchar and cs :: ustring
  have "length (dropWhile u_space cs) \<le> length cs"
    by (rule length_dropWhile_le)
  then show "(dropWhile u_space cs, c # cs) \<in> measure length" by simp
next
  fix c :: uchar and cs :: ustring
  show "(cs, c # cs) \<in> measure length" by simp
qed

text \<open>\<^verbatim>\<open>t.slice(start, end)\<close> for \<open>0 \<le> start\<close> and \<open>0 \<le> end\<close>.\<close>

definition slice :: "'a list \<Rightarrow> nat \<Rightarrow> nat \<Rightarrow> 'a list" where
  "slice t start end = take (end - start) (drop start t)"

text \<open>One turn of the loop over the tokens in \<^verbatim>\<open>buildSnippet\<close>; the state is
  \<^verbatim>\<open>bestIdx\<close>, with \<open>None\<close> for \<^verbatim>\<open>-1\<close>.\<close>

definition best_step :: "ustring \<Rightarrow> ustring \<Rightarrow> nat option \<Rightarrow> nat option" where
  "best_step lower rawTok bestIdx =
     (let tok = u_toLowerCase rawTok in
      if tok = [] then bestIdx
      else if length tok < 2 then bestIdx
      else
        (case indexOf lower tok of
           None \<Rightarrow> bestIdx
         | Some idx \<Rightarrow>
             (case bestIdx of
                None \<Rightarrow> Some idx
              | Some b \<Rightarrow> if idx < b then Some idx else Some b)))"

definition best_index :: "ustring \<Rightarrow> ustring list \<Rightarrow> nat option" where
  "best_index t tokens = fold (best_step (u_toLowerCase t)) tokens None"

definition buildSnippet :: "ustring \<Rightarrow> ustring list \<Rightarrow> ustring" where
  "buildSnippet t tokens =
     (case best_index t tokens of
        None \<Rightarrow>
          (let trimmed = u_trim (collapse_ws t)
           in if 220 < length trimmed then take 220 trimmed @ [Ellipsis] else trimmed)
      | Some bestIdx \<Rightarrow>
          (let start = nat (max 0 (int bestIdx - 90));
               end = min (length t) (bestIdx + 180);
               snippet = u_trim (collapse_ws (slice t start end))
           in (if 0 < start then [Ellipsis] else []) @ snippet
              @ (if end < length t then [Ellipsis] else [])))"

text \<open>
  A document of the index. \<open>'m\<close> is the metadata that
  \<^verbatim>\<open>inferDocMetaFromFilename\<close> and \<^verbatim>\<open>attachJsonMetadata\<close> derive from the
  file name and the dataset (the entity type and identifier among it); no
  property below depends on it.
\<close>

record 'm doc =
  doc_id :: ustring
  filename :: ustring
  title :: ustring
  meta :: 'm
  text_of :: ustring
  public_path :: ustring
  search_blob :: ustring

text \<open>A hit of \<^verbatim>\<open>fuse.search\<close>; the score, a floating-point number, is left out.\<close>

record 'm hit =
  item :: "'m doc"

record 'm doc_index =
  docs :: "'m doc list"
  fuse :: "ustring \<Rightarrow> 'm hit list"

text \<open>
  What \<^verbatim>\<open>buildDocIndex\<close> takes from outside: the listing of the directory
  (\<open>None\<close> when \<^verbatim>\<open>readdir\<close> rejects), the text that \<^verbatim>\<open>readFile\<close> and
  \<^verbatim>\<open>extractPdfText\<close> give for a file (\<open>None\<close> when either throws), the
  metadata of a file and its \<^verbatim>\<open>JSON.stringify\<close>, \<^verbatim>\<open>encodeURIComponent\<close>,
  and the constructor of the Fuse index.
\<close>

record 'm doc_env =
  readdir :: "ustring list option"
  extract_text :: "ustring \<Rightarrow> ustring option"
  describe :: "ustring \<Rightarrow> 'm"
  meta_text :: "'m \<Rightarrow> ustring"
  encode_uri :: "ustring \<Rightarrow> ustring"
  new_fuse :: "'m doc list \<Rightarrow> ustring \<Rightarrow> 'm hit list"

text \<open>\<^verbatim>\<open>/\.pdf$/i.test(f)\<close>\<close>

definition is_pdf :: "ustring \<Rightarrow> bool" where
  "is_pdf f = (4 \<le> length f \<and> u_toLowerCase (drop (length f - 4) f) = ustr ''.pdf'')"

text \<open>The body of the loop over the PDF files: the document the file adds,
  none when the \<^verbatim>\<open>try\<close> block throws.\<close>

definition index_file :: "'m doc_env \<Rightarrow> ustring \<Rightarrow> 'm doc list" where
  "index_file env f =
     (case extract_text env f of
        None \<Rightarrow> []
      | Some txt \<Rightarrow>
          [\<lparr>doc_id = f, filename = f, title = f, meta = describe env f, text_of = txt,
            public_path = ustr ''/docs/'' @ encode_uri env f,
            search_blob =
              u_toLowerCase (f @ ustr [CHR 0x0A] @ meta_text env (describe env f)
                             @ ustr [CHR 0x0A] @ txt)\<rparr>])"

definition buildDocIndex :: "'m doc_env \<Rightarrow> 'm doc_index" where
  "buildDocIndex env =
     (let files = (case readdir env of None \<Rightarrow> [] | Some fs \<Rightarrow> fs);
          pdfs = filter is_pdf files;
          ds = concat (map (index_file env) pdfs)
      in \<lparr>docs = ds, fuse = new_fuse env ds\<rparr>)"

text \<open>\<^verbatim>\<open>xs.slice(0, limit)\<close> for an integer \<^verbatim>\<open>limit\<close>: a negative one counts
  from the end.\<close>

definition slice_to :: "'a list \<Rightarrow> int \<Rightarrow> 'a list" where
  "slice_to xs limit =
     (if limit < 0 then take (nat (int (length xs) + limit)) xs else take (nat limit) xs)"

text \<open>A result of \<^verbatim>\<open>searchDocuments\<close>: the fields copied from the document (the
  entity type and identifier are in the metadata), the snippet and the matched
  terms; the rounded score is left out with the score.\<close>

record 'm doc_result =
  r_doc_id :: ustring
  r_title :: ustring
  r_filename :: ustring
  r_meta :: 'm
  r_public_path :: ustring
  snippet :: ustring
  matched_terms :: "ustring list"

definition matched_terms_of :: "'m doc \<Rightarrow> ustring list \<Rightarrow> ustring list" where
  "matched_terms_of d tokens =
     take 12 (filter (\<lambda>t. str_includes (search_blob d) (u_toLowerCase t))
               (filter (\<lambda>t. 2 \<le> length t) (map u_trim tokens)))"

definition render_hit :: "ustring list \<Rightarrow> 'm hit \<Rightarrow> 'm doc_result" where
  "render_hit tokens r =
     \<lparr>r_doc_id = doc_id (item r), r_title = title (item r), r_filename = filename (item r),
      r_meta = meta (item r), r_public_path = public_path (item r),
      snippet = buildSnippet (text_of (item r)) tokens,
      matched_terms = matched_terms_of (item r) tokens\<rparr>"

text \<open>\<^verbatim>\<open>searchDocuments(docIndex, query, { limit = 20 } = {})\<close>; \<open>None\<close> is an
  options object without \<^verbatim>\<open>limit\<close>.\<close>

definition searchDocuments :: "'m doc_index \<Rightarrow> ustring \<Rightarrow> int option \<Rightarrow> 'm doc_result list" where
  "searchDocuments docIndex query limit =
     (if docs docIndex = [] then []
      else
        let tokens = parseQueryTokens query;
            q = u_trim (join [L1 CHR '' ''] tokens)
        in if q = [] then []
           else map (render_hit tokens)
                  (slice_to (fuse docIndex q) (case limit of None \<Rightarrow> 20 | Some l \<Rightarrow> l)))"

section \<open>The path resolver as the specification words it\<close>




section \<open>Notions used in the statements\<close>






text \<open>The string \<open>w\<close> occurs in \<open>h\<close> at index \<open>i\<close>; a query token of at least
  two code units occurs in a text at index \<open>i\<close>, letter case ignored.\<close>

definition occurs_at :: "'a list \<Rightarrow> 'a list \<Rightarrow> nat \<Rightarrow> bool" where
  "occurs_at h w i = (i \<le> length h \<and> startsWith (drop i h) w)"

definition token_at :: "ustring \<Rightarrow> ustring list \<Rightarrow> nat \<Rightarrow> bool" where
  "token_at t tokens i =
     list_ex (\<lambda>tok. 2 \<le> length tok \<and> occurs_at (u_toLowerCase t) (u_toLowerCase tok) i) tokens"

section \<open>Example records\<close>

text \<open>The one-person dataset of the specification's end-to-end example.\<close>

definition example_person :: jsval where
  "example_person =
     JObj [(''person_id'', JStr ''P-0001''),
           (''name'', JObj [(''primary_name'', JStr ''Tan Wei Ming'')]),
           (''nationality'', JStr ''Malaysian''),
           (''gender'', JStr ''male'')]"



section \<open>Example documents\<close>

text \<open>The text of the specification's snippet example.\<close>

definition example_shipment :: ustring where
  "example_shipment = ustr ''...the shipment arrived at Tanjung Pelepas on March 3...''"

text \<open>A text of 301 characters in which the one-letter token \<^verbatim>\<open>a\<close> occurs at
  index 100, and a text in which \<^verbatim>\<open>tanjung\<close> occurs at index 0 and
  \<^verbatim>\<open>Tanjung Pelepas\<close> at index 207.\<close>

definition example_short_token :: ustring where
  "example_short_token = ustr (replicate 100 CHR ''x'' @ ''a'' @ replicate 200 CHR ''y'')"

definition example_two_tanjung :: ustring where
  "example_two_tanjung = ustr (''tanjung'' @ replicate 200 CHR ''x'' @ ''Tanjung Pelepas'')"


text \<open>A directory whose only PDF cannot be read, and an index of two documents
  whose Fuse search returns both for every query.\<close>

definition example_unreadable :: "unit doc_env" where
  "example_unreadable =
     \<lparr>readdir = Some [ustr ''persons_P-0001.pdf'', ustr ''notes.txt''],
      extract_text = (\<lambda>f. None),
      describe = (\<lambda>f. ()),
      meta_text = (\<lambda>m. []),
      encode_uri = (\<lambda>f. f),
      new_fuse = (\<lambda>ds q. [])\<rparr>"

definition example_doc :: "ustring \<Rightarrow> ustring \<Rightarrow> unit doc" where
  "example_doc f txt =
     \<lparr>doc_id = f, filename = f, title = f, meta = (), text_of = txt,
      public_path = ustr ''/docs/'' @ f,
      search_blob = u_toLowerCase (f @ ustr [CHR 0x0A] @ ustr [CHR 0x0A] @ txt)\<rparr>"

definition example_index :: "unit doc_index" where
  "example_index =
     \<lparr>docs = [example_doc (ustr ''cases_SC-1.pdf'') example_shipment,
              example_doc (ustr ''cases_SC-2.pdf'') example_shipment],
      fuse = (\<lambda>q. [\<lparr>item = example_doc (ustr ''cases_SC-1.pdf'') example_shipment\<rparr>,
                    \<lparr>item = example_doc (ustr ''cases_SC-2.pdf'') example_shipment\<rparr>])\<rparr>"

section \<open>Strings: substrings and trimming\<close>

lemma startsWith_iff: "startsWith h w \<longleftrightarrow> (\<exists>suf. h = w @ suf)"
  unfolding startsWith_def
  by (metis append_eq_conv_conj append_take_drop_id)

lemma str_includes_iff: "str_includes h w \<longleftrightarrow> (\<exists>pre suf. h = pre @ w @ suf)"
proof (induction h)
  case Nil
  then show ?case by auto
next
  case (Cons x xs)
  show ?case
  proof
    assume "str_includes (x # xs) w"
    then consider "startsWith (x # xs) w" | "str_includes xs w" by (auto split: if_splits)
    then show "\<exists>pre suf. x # xs = pre @ w @ suf"
    proof cases
      case 1
      then obtain suf where "x # xs = w @ suf" by (auto simp: startsWith_iff)
      then have "x # xs = [] @ w @ suf" by simp
      then show ?thesis by blast
    next
      case 2
      then obtain pre suf where "xs = pre @ w @ suf" using Cons.IH by auto
      then have "x # xs = (x # pre) @ w @ suf" by simp
      then show ?thesis by blast
    qed
  next
    assume "\<exists>pre suf. x # xs = pre @ w @ suf"
    then obtain pre suf where e: "x # xs = pre @ w @ suf" by auto
    show "str_includes (x # xs) w"
    proof (cases pre)
      case Nil
      with e have "startsWith (x # xs) w" by (auto simp: startsWith_iff)
      then show ?thesis by simp
    next
      case (Cons p ps)
      with e have "xs = ps @ w @ suf" by simp
      then have "str_includes xs w" using Cons.IH by auto
      then show ?thesis by simp
    qed
  qed
qed


section \<open>Strings: lower case\<close>

lemma is_space_lower_char: "is_space (lower_char c) = is_space c"
proof -
  define n where "n = (of_char c :: nat)"
  show ?thesis
  proof (cases "(65 \<le> n \<and> n \<le> 90) \<or> (192 \<le> n \<and> n \<le> 222 \<and> n \<noteq> 215)")
    case True
    then have l: "lower_char c = char_of (n + 32)" by (simp add: lower_char_def n_def Let_def)
    from True have m: "(n + 32) mod 256 = n + 32" by auto
    have "\<not> is_space (lower_char c)" using True by (auto simp: l is_space_def m)
    moreover have "\<not> is_space c" using True by (auto simp: is_space_def n_def)
    ultimately show ?thesis by simp
  next
    case False
    then have "lower_char c = c" by (auto simp: lower_char_def n_def Let_def)
    then show ?thesis by simp
  qed
qed






section \<open>The empty query\<close>

lemma walk_no_terms: "walk v path [] = []"
  by (induction v path "[] :: string list" rule: walk.induct) (auto simp: leaf_matches_def)

lemma collectMatchedFields_no_terms: "collectMatchedFields v [] = []"
  by (simp add: collectMatchedFields_def walk_no_terms)

lemma decorate_no_terms:
  "decorate v [] =
     JObj (set_prop ''matchedFields'' (JArr [])
            (set_prop ''matchedTerms'' (JArr []) (spread v)))"
  by (simp add: decorate_def collectMatchedFields_no_terms)








section \<open>The filter stage\<close>













section \<open>The term stage\<close>

lemma passesTerms_iff:
  "passesTerms obj ts \<longleftrightarrow>
     (\<forall>t\<in>set ts. \<exists>f\<in>set (flatten obj []). \<exists>pre suf. norm_str f = pre @ t @ suf)"
  by (cases ts) (auto simp: passesTerms_def list_all_iff list_ex_iff str_includes_iff)

text \<open>
  Claim C4. A record passes the term stage exactly when every free term is a
  substring of one of its flattened \<^verbatim>\<open>path=value\<close> strings (normalised as the
  code does, lower-cased and trimmed); so a record that passes with one more
  term passes without it, and the records of a collection that pass with the
  longer term list are among those that pass with the shorter one.
\<close>

theorem passesTerms_shrinks:
  "(passesTerms obj ts \<longleftrightarrow>
      (\<forall>t\<in>set ts. \<exists>f\<in>set (flatten obj []). \<exists>pre suf. norm_str f = pre @ t @ suf))
   \<and> (passesTerms obj (ts @ [t]) \<longrightarrow> passesTerms obj ts)
   \<and> (set ts \<subseteq> set ts' \<longrightarrow> passesTerms obj ts' \<longrightarrow> passesTerms obj ts)
   \<and> set (filter (\<lambda>v. passesTerms v (ts @ [t])) arr) \<subseteq> set (filter (\<lambda>v. passesTerms v ts) arr)"
proof -
  have m: "passesTerms v (ts @ [t]) \<Longrightarrow> passesTerms v ts" for v
    unfolding passesTerms_iff by simp
  have s: "set ts \<subseteq> set ts' \<Longrightarrow> passesTerms obj ts' \<Longrightarrow> passesTerms obj ts"
    unfolding passesTerms_iff by blast
  show ?thesis using passesTerms_iff [of obj ts] m s by auto
qed

theorem passesTerms_shrinks_witness:
  "passesTerms example_person [''tan''] \<and> \<not> passesTerms example_person [''tan'', ''lee'']
   \<and> filter (\<lambda>v. passesTerms v ([''tan''] @ [''lee''])) [example_person] = []
   \<and> filter (\<lambda>v. passesTerms v [''tan'']) [example_person] = [example_person]"
proof -
  have a: "passesTerms example_person [''tan'']" by code_simp
  have b: "\<not> passesTerms example_person [''tan'', ''lee'']" by code_simp
  from passesTerms_shrinks [of example_person "[''tan'']" "''lee''" "[''tan'']" "[example_person]"] a b
  show ?thesis by simp
qed

section \<open>Unknown filter keys\<close>

text \<open>A key that neither the table nor \<^verbatim>\<open>Object.prototype\<close> knows is skipped
  by the filter stage, wherever it stands among the filters.\<close>

lemma passesFilters_unknown_key_skipped:
  assumes "map_of FILTER_PATHS k = None" and "k \<notin> set object_prototype_names"
  shows "passesFilters obj (fs @ (k, vs) # fs') = passesFilters obj (fs @ fs')"
  using assms by (induction obj fs rule: passesFilters.induct) (auto split: option.splits)

text \<open>So the token of an unknown key changes no result, for every collection.\<close>

lemma unknown_key_example_ignored:
  "searchCollection arr ''tan unknownkey:anything'' = searchCollection arr ''tan''"
proof -
  have a: "parseQuery ''tan unknownkey:anything'' =
             Inr \<lparr>terms = [''tan''], filters = [(''unknownkey'', [''anything''])]\<rparr>"
    by code_simp
  have b: "parseQuery ''tan'' = Inr \<lparr>terms = [''tan''], filters = []\<rparr>"
    by code_simp
  have k: "map_of FILTER_PATHS ''unknownkey'' = None" by code_simp
  have n: "''unknownkey'' \<notin> set object_prototype_names" by code_simp
  have "passesFilters obj [(''unknownkey'', [''anything''])] = passesFilters obj []" for obj
    using passesFilters_unknown_key_skipped [of "''unknownkey''" obj "[]" "[''anything'']" "[]"] k n
    by simp
  then have "match_record \<lparr>terms = [''tan''], filters = [(''unknownkey'', [''anything''])]\<rparr>
               = match_record \<lparr>terms = [''tan''], filters = []\<rparr>"
    by (intro ext) (simp add: match_record_def)
  then show ?thesis by (simp add: searchCollection_def a b)
qed

text \<open>
  Claim C5 at the key \<^verbatim>\<open>constructor\<close>, which the filter-path table does not
  have. \<^verbatim>\<open>parseQuery\<close> finds \<^verbatim>\<open>filters["constructor"]\<close> on the prototype of
  the empty object, does not create the list, and calls \<^verbatim>\<open>push\<close> on a
  function: the search raises a TypeError, where the same query without the
  token returns the person.
\<close>

theorem unknown_key_constructor_raises:
  "searchCollection [example_person] ''tan constructor:x'' = Inl TypeError
   \<and> searchCollection [example_person] ''tan'' =
       Inr [JObj [(''person_id'', JStr ''P-0001''),
                (''name'', JObj [(''primary_name'', JStr ''Tan Wei Ming'')]),
                (''nationality'', JStr ''Malaysian''),
                (''gender'', JStr ''male''),
                (''matchedTerms'', JArr [JStr ''tan'']),
                (''matchedFields'', JArr [JStr ''name.primary_name''])]]"
proof -
  have a: "searchCollection [example_person] ''tan constructor:x'' = Inl TypeError" by code_simp
  have b: "searchCollection [example_person] ''tan'' =
       Inr [JObj [(''person_id'', JStr ''P-0001''),
                (''name'', JObj [(''primary_name'', JStr ''Tan Wei Ming'')]),
                (''nationality'', JStr ''Malaysian''),
                (''gender'', JStr ''male''),
                (''matchedTerms'', JArr [JStr ''tan'']),
                (''matchedFields'', JArr [JStr ''name.primary_name''])]]" by code_simp
  from a b show ?thesis by simp
qed

section \<open>Tokens of the query\<close>

text \<open>A token that is a colon followed by anything, or that ends with its only
  colon, is not a filter: it becomes a normalised term.\<close>

lemma match_kv_leading_colon: "match_kv (CHR '':'' # r) = None"
  by (simp add: match_kv_def is_key_char_def)

lemma is_key_char_colon: "\<not> is_key_char CHR '':''"
  by (simp add: is_key_char_def)

lemma match_kv_empty_value:
  assumes "CHR '':'' \<notin> set k"
  shows "match_kv (k @ '':'') = None"
proof -
  have "dropWhile is_key_char (k @ '':'') = '':'' \<or> (\<exists>c r. dropWhile is_key_char (k @ '':'') = c # r \<and> c \<noteq> CHR '':'')"
    using assms
  proof (induction k)
    case Nil
    then show ?case by (simp add: is_key_char_colon)
  next
    case (Cons a k)
    then show ?case by (cases "is_key_char a") auto
  qed
  then show ?thesis by (auto simp: match_kv_def)
qed

lemma parse_token_term:
  "match_kv (strip_quotes t) = None \<Longrightarrow>
   parse_token q t = Inr (q\<lparr>terms := terms q @ [norm_str (strip_quotes t)]\<rparr>)"
  by (simp add: parse_token_def)

lemma tokenize_quoted_span:
  assumes "s \<noteq> []" and "dquote \<notin> set s"
  shows "tokenize (dquote # s @ dquote # rest) = (dquote # s @ [dquote]) # tokenize rest"
proof -
  have t: "takeWhile (\<lambda>x. x \<noteq> dquote) (s @ dquote # rest) = s"
    using assms(2) by (induction s) auto
  have d: "dropWhile (\<lambda>x. x \<noteq> dquote) (s @ dquote # rest) = dquote # rest"
    using assms(2) by (induction s) auto
  show ?thesis using assms(1) by (simp add: t d)
qed

lemma strip_quotes_quoted: "dquote \<notin> set s \<Longrightarrow> strip_quotes (dquote # s @ [dquote]) = s"
  by (simp add: strip_quotes_def)

text \<open>A quoted span that starts a token is one token, and its quotes are
  stripped: the three examples of the specification.\<close>

lemma parseQuery_empty_value: "parseQuery ''x:'' = Inr \<lparr>terms = [''x:''], filters = []\<rparr>"
  by code_simp

lemma parseQuery_empty_key: "parseQuery '':y'' = Inr \<lparr>terms = ['':y''], filters = []\<rparr>"
  by code_simp

lemma parseQuery_quoted_phrase:
  "parseQuery (dquote # ''johor bahru'' @ [dquote])
     = Inr \<lparr>terms = [''johor bahru''], filters = []\<rparr>"
  by code_simp

text \<open>
  Claim C6 at the query \<^verbatim>\<open>address:"johor bahru"\<close>, one of the examples the
  user interface suggests. The quoted span does not start the token, so the
  alternative \<^verbatim>\<open>\S+\<close> ends the token at the space inside the quotes: the span
  is cut into a filter value \<^verbatim>\<open>johor\<close> and a free term \<^verbatim>\<open>bahru\<close>.
\<close>

theorem quoted_filter_value_is_split:
  "tokenize (''address:'' @ [dquote] @ ''johor bahru'' @ [dquote])
     = [''address:'' @ [dquote] @ ''johor'', ''bahru'' @ [dquote]]
   \<and> parseQuery (''address:'' @ [dquote] @ ''johor bahru'' @ [dquote])
     = Inr \<lparr>terms = [''bahru''], filters = [(''address'', [''johor''])]\<rparr>"
proof -
  have a: "tokenize (''address:'' @ [dquote] @ ''johor bahru'' @ [dquote])
     = [''address:'' @ [dquote] @ ''johor'', ''bahru'' @ [dquote]]" by code_simp
  have b: "parseQuery (''address:'' @ [dquote] @ ''johor bahru'' @ [dquote])
     = Inr \<lparr>terms = [''bahru''], filters = [(''address'', [''johor''])]\<rparr>" by code_simp
  from a b show ?thesis by simp
qed

section \<open>The path resolver\<close>












section \<open>Searching leaves the store as it is\<close>











section \<open>Snippets\<close>

lemma indexOf_None_iff: "indexOf h w = None \<longleftrightarrow> \<not> str_includes h w"
  by (induction h) auto

lemma occurs_at_Cons: "occurs_at (x # xs) w (Suc i) = occurs_at xs w i"
  by (simp add: occurs_at_def)

lemma occurs_at_0: "occurs_at h w 0 = startsWith h w"
  by (simp add: occurs_at_def)

lemma indexOf_Some_occurs:
  "indexOf h w = Some i \<Longrightarrow> occurs_at h w i \<and> (\<forall>j<i. \<not> occurs_at h w j)"
proof (induction h arbitrary: i)
  case Nil
  then show ?case by (auto simp: occurs_at_def startsWith_def split: if_splits)
next
  case (Cons x xs)
  show ?case
  proof (cases "startsWith (x # xs) w")
    case True
    with Cons.prems show ?thesis by (simp add: occurs_at_0)
  next
    case False
    with Cons.prems obtain i' where i': "indexOf xs w = Some i'" "i = Suc i'" by auto
    from Cons.IH [OF i'(1)] have a: "occurs_at xs w i'" and b: "\<forall>j<i'. \<not> occurs_at xs w j"
      by auto
    have "\<not> occurs_at (x # xs) w j" if "j < i" for j
    proof (cases j)
      case 0
      with False show ?thesis by (simp add: occurs_at_0)
    next
      case (Suc j')
      with that i'(2) b show ?thesis by (simp add: occurs_at_Cons)
    qed
    with a i'(2) show ?thesis by (simp add: occurs_at_Cons)
  qed
qed

lemma occurs_indexOf: "occurs_at h w j \<Longrightarrow> \<exists>i\<le>j. indexOf h w = Some i"
proof (induction h arbitrary: j)
  case Nil
  then show ?case by (auto simp: occurs_at_def startsWith_def)
next
  case (Cons x xs)
  show ?case
  proof (cases "startsWith (x # xs) w")
    case True
    then show ?thesis by simp
  next
    case False
    with Cons.prems obtain j' where j': "j = Suc j'"
      by (cases j) (auto simp: occurs_at_0)
    with Cons.prems have "occurs_at xs w j'" by (simp add: occurs_at_Cons)
    from Cons.IH [OF this] obtain i where "i \<le> j'" "indexOf xs w = Some i" by auto
    with False j' show ?thesis by simp
  qed
qed

lemma str_includes_occurs: "str_includes h w \<longleftrightarrow> (\<exists>i. occurs_at h w i)"
proof
  assume "str_includes h w"
  then obtain i where "indexOf h w = Some i" using indexOf_None_iff [of h w] by auto
  then show "\<exists>i. occurs_at h w i" using indexOf_Some_occurs by blast
next
  assume "\<exists>i. occurs_at h w i"
  then obtain i where "indexOf h w = Some i" using occurs_indexOf by blast
  then show "str_includes h w" using indexOf_None_iff [of h w] by auto
qed

lemma best_step_cases:
  "best_step lo tok acc =
     (if 2 \<le> length tok then
        (case indexOf lo (u_toLowerCase tok) of None \<Rightarrow> acc
         | Some idx \<Rightarrow> (case acc of None \<Rightarrow> Some idx | Some b \<Rightarrow> Some (min idx b)))
      else acc)"
  by (auto simp: best_step_def Let_def u_toLowerCase_def min_def split: option.splits)

lemma fold_best_None:
  "fold (best_step lo) toks acc = None \<longleftrightarrow>
     acc = None \<and> (\<forall>tok\<in>set toks. 2 \<le> length tok \<longrightarrow> indexOf lo (u_toLowerCase tok) = None)"
  by (induction toks arbitrary: acc) (auto simp: best_step_cases split: option.splits)

lemma fold_best_Some:
  "fold (best_step lo) toks acc = Some i \<Longrightarrow>
     (acc = Some i \<or> (\<exists>tok\<in>set toks. 2 \<le> length tok \<and> indexOf lo (u_toLowerCase tok) = Some i))
     \<and> (\<forall>b. acc = Some b \<longrightarrow> i \<le> b)
     \<and> (\<forall>tok\<in>set toks. 2 \<le> length tok \<longrightarrow>
           (\<forall>j. indexOf lo (u_toLowerCase tok) = Some j \<longrightarrow> i \<le> j))"
proof (induction toks arbitrary: acc)
  case Nil
  then show ?case by simp
next
  case (Cons tok toks)
  from Cons.prems have f: "fold (best_step lo) toks (best_step lo tok acc) = Some i" by simp
  note ih = Cons.IH [OF f]
  show ?case
  proof (cases "2 \<le> length tok")
    case False
    then have "best_step lo tok acc = acc" by (simp add: best_step_cases)
    with ih False show ?thesis by auto
  next
    case True
    show ?thesis
    proof (cases "indexOf lo (u_toLowerCase tok)")
      case None
      then have "best_step lo tok acc = acc" using True by (simp add: best_step_cases)
      with ih None show ?thesis by auto
    next
      case (Some idx)
      show ?thesis
      proof (cases acc)
        case None
        then have "best_step lo tok acc = Some idx" using True Some by (simp add: best_step_cases)
        with ih None Some True show ?thesis by auto
      next
        case (Some b)
        then have "best_step lo tok acc = Some (min idx b)"
          using True \<open>indexOf lo (u_toLowerCase tok) = Some idx\<close> by (simp add: best_step_cases)
        with ih Some \<open>indexOf lo (u_toLowerCase tok) = Some idx\<close> True show ?thesis
          by (auto simp: min_def split: if_splits)
      qed
    qed
  qed
qed

lemma best_index_None:
  "best_index t tokens = None \<longleftrightarrow>
     \<not> list_ex (\<lambda>tok. 2 \<le> length tok \<and> str_includes (u_toLowerCase t) (u_toLowerCase tok)) tokens"
  by (auto simp: best_index_def fold_best_None indexOf_None_iff list_ex_iff)

lemma best_index_earliest:
  assumes "token_at t tokens i" and "\<forall>j<i. \<not> token_at t tokens j"
  shows "best_index t tokens = Some i"
proof -
  let ?lo = "u_toLowerCase t"
  from assms(1) obtain tok where tok: "tok \<in> set tokens" "2 \<le> length tok"
    "occurs_at ?lo (u_toLowerCase tok) i"
    by (auto simp: token_at_def list_ex_iff)
  from occurs_indexOf [OF tok(3)] obtain k where k: "k \<le> i" "indexOf ?lo (u_toLowerCase tok) = Some k"
    by auto
  have "best_index t tokens \<noteq> None"
    using tok k by (auto simp: best_index_def fold_best_None)
  then obtain b where b: "best_index t tokens = Some b" by auto
  from fold_best_Some [OF b [unfolded best_index_def]]
  have ex: "\<exists>tok\<in>set tokens. 2 \<le> length tok \<and> indexOf ?lo (u_toLowerCase tok) = Some b"
    and le: "\<forall>tok\<in>set tokens. 2 \<le> length tok \<longrightarrow>
           (\<forall>j. indexOf ?lo (u_toLowerCase tok) = Some j \<longrightarrow> b \<le> j)"
    by auto
  from le tok k have "b \<le> i" by force
  from ex obtain tok' where "tok' \<in> set tokens" "2 \<le> length tok'"
    "indexOf ?lo (u_toLowerCase tok') = Some b" by auto
  then have "token_at t tokens b"
    using indexOf_Some_occurs by (auto simp: token_at_def list_ex_iff)
  with assms(2) have "\<not> b < i" by auto
  with \<open>b \<le> i\<close> b show ?thesis by simp
qed

lemma best_index_Some_earliest:
  assumes "best_index t tokens = Some i"
  shows "token_at t tokens i \<and> (\<forall>j<i. \<not> token_at t tokens j)"
proof -
  let ?lo = "u_toLowerCase t"
  from fold_best_Some [OF assms [unfolded best_index_def]]
  have ex: "\<exists>tok\<in>set tokens. 2 \<le> length tok \<and> indexOf ?lo (u_toLowerCase tok) = Some i"
    and le: "\<forall>tok\<in>set tokens. 2 \<le> length tok \<longrightarrow>
           (\<forall>j. indexOf ?lo (u_toLowerCase tok) = Some j \<longrightarrow> i \<le> j)"
    by auto
  from ex have a: "token_at t tokens i"
    using indexOf_Some_occurs by (auto simp: token_at_def list_ex_iff)
  have "\<not> token_at t tokens j" if "j < i" for j
  proof
    assume "token_at t tokens j"
    then obtain tok where tok: "tok \<in> set tokens" "2 \<le> length tok"
      "occurs_at ?lo (u_toLowerCase tok) j"
      by (auto simp: token_at_def list_ex_iff)
    from occurs_indexOf [OF tok(3)] obtain k where "k \<le> j" "indexOf ?lo (u_toLowerCase tok) = Some k"
      by auto
    with le tok have "i \<le> j" by force
    with that show False by simp
  qed
  with a show ?thesis by blast
qed

lemma length_collapse_ws: "length (collapse_ws s) \<le> length s"
proof (induction s rule: collapse_ws.induct)
  case 1
  show ?case by simp
next
  case (2 c cs)
  have "length (dropWhile u_space cs) \<le> length cs" by (rule length_dropWhile_le)
  with 2 show ?case by (cases "u_space c") auto
qed

lemma length_trim_with: "length (trim_with sp s) \<le> length s"
proof -
  have "length (dropWhile sp (rev (dropWhile sp s))) \<le> length (rev (dropWhile sp s))"
    by (rule length_dropWhile_le)
  also have "\<dots> \<le> length s" using length_dropWhile_le [of sp s] by simp
  finally show ?thesis by (simp add: trim_with_def)
qed

lemma length_slice: "length (slice t a b) \<le> b - a"
  by (simp add: slice_def)

lemma buildSnippet_fallback:
  "best_index t tokens = None \<Longrightarrow>
   buildSnippet t tokens =
     (if 220 < length (u_trim (collapse_ws t)) then take 220 (u_trim (collapse_ws t)) @ [Ellipsis]
      else u_trim (collapse_ws t))"
  by (simp add: buildSnippet_def Let_def)

lemma buildSnippet_found:
  "best_index t tokens = Some i \<Longrightarrow>
   buildSnippet t tokens =
     (if 90 < i then [Ellipsis] else [])
     @ u_trim (collapse_ws (slice t (i - 90) (min (length t) (i + 180))))
     @ (if i + 180 < length t then [Ellipsis] else [])"
  by (auto simp: buildSnippet_def Let_def nat_diff_distrib' max_def)

lemma length_buildSnippet: "length (buildSnippet t tokens) \<le> 272"
proof (cases "best_index t tokens")
  case None
  then show ?thesis by (simp add: buildSnippet_fallback)
next
  case (Some i)
  let ?w = "slice t (i - 90) (min (length t) (i + 180))"
  have "length (u_trim (collapse_ws ?w)) \<le> length (collapse_ws ?w)"
    unfolding u_trim_def by (rule length_trim_with)
  also have "\<dots> \<le> length ?w" by (rule length_collapse_ws)
  also have "\<dots> \<le> min (length t) (i + 180) - (i - 90)" by (rule length_slice)
  also have "\<dots> \<le> 270" by simp
  finally have L: "length (u_trim (collapse_ws ?w)) \<le> 270" .
  define X where "X = u_trim (collapse_ws ?w)"
  have "buildSnippet t tokens =
          (if 90 < i then [Ellipsis] else []) @ X @ (if i + 180 < length t then [Ellipsis] else [])"
    unfolding X_def using Some by (rule buildSnippet_found)
  then have "length (buildSnippet t tokens) \<le> length X + 2" by simp
  with L show ?thesis by (simp add: X_def)
qed


lemma u_space_lower: "u_space (u_lower c) = u_space c"
  by (cases c) (simp_all add: is_space_lower_char)

lemma dropWhile_append_keep:
  "T \<noteq> [] \<Longrightarrow> \<not> sp (hd T) \<Longrightarrow> dropWhile sp (cs @ T) = dropWhile sp cs @ T"
  by (induction cs) (auto simp: neq_Nil_conv)

lemma collapse_ws_nospace: "\<forall>c\<in>set T. \<not> u_space c \<Longrightarrow> collapse_ws (T @ B) = T @ collapse_ws B"
  by (induction T) auto

lemma collapse_ws_append:
  "T \<noteq> [] \<Longrightarrow> \<not> u_space (hd T) \<Longrightarrow> collapse_ws (A @ T) = collapse_ws A @ collapse_ws T"
proof (induction A rule: collapse_ws.induct)
  case 1
  show ?case by simp
next
  case (2 c cs)
  show ?case
  proof (cases "u_space c")
    case True
    with 2 show ?thesis by (simp add: dropWhile_append_keep)
  next
    case False
    with 2 show ?thesis by simp
  qed
qed

lemma trim_with_keep:
  assumes "T \<noteq> []" and "\<not> sp (hd T)" and "\<not> sp (last T)"
  shows "trim_with sp (X @ T @ Y) = dropWhile sp X @ T @ rev (dropWhile sp (rev Y))"
proof -
  have a: "dropWhile sp (X @ T @ Y) = dropWhile sp X @ T @ Y"
    using dropWhile_append_keep [of "T @ Y" sp X] assms by simp
  have "dropWhile sp (rev Y @ (rev T @ rev (dropWhile sp X)))
          = dropWhile sp (rev Y) @ (rev T @ rev (dropWhile sp X))"
    using assms by (intro dropWhile_append_keep) (simp_all add: hd_rev)
  then show ?thesis by (simp add: trim_with_def a)
qed

lemma slice_split: "a \<le> b \<Longrightarrow> b \<le> c \<Longrightarrow> slice t a c = slice t a b @ slice t b c"
proof -
  assume ab: "a \<le> b" and bc: "b \<le> c"
  have "take (c - a) (drop a t) = take (b - a) (drop a t) @ take (c - b) (drop (b - a) (drop a t))"
    using ab bc take_add [of "b - a" "c - b" "drop a t"] by simp
  then show ?thesis using ab by (simp add: slice_def)
qed

lemma snippet_contains_token:
  assumes b: "best_index t tokens = Some i"
    and occ: "occurs_at (u_toLowerCase t) (u_toLowerCase tok) i"
    and len: "2 \<le> length tok" "length tok \<le> 180"
    and nsp: "\<forall>c\<in>set tok. \<not> u_space c"
  shows "str_includes (u_toLowerCase (buildSnippet t tokens)) (u_toLowerCase tok)"
proof -
  let ?n = "length tok"
  let ?T = "slice t i (i + ?n)"
  let ?e = "min (length t) (i + 180)"
  from occ have tk: "take ?n (drop i (u_toLowerCase t)) = u_toLowerCase tok"
    by (simp add: occurs_at_def startsWith_def u_toLowerCase_def)
  then have lT: "u_toLowerCase ?T = u_toLowerCase tok"
    by (simp add: slice_def u_toLowerCase_def take_map drop_map)
  from tk have "length (take ?n (drop i (u_toLowerCase t))) = ?n"
    by (simp add: u_toLowerCase_def)
  moreover from occ have "i \<le> length t" by (simp add: occurs_at_def u_toLowerCase_def)
  ultimately have fit: "i + ?n \<le> length t" by (simp add: u_toLowerCase_def)
  then have lenT: "length ?T = ?n" by (simp add: slice_def)
  with len have Tne: "?T \<noteq> []" by auto
  have Tns: "\<forall>c\<in>set ?T. \<not> u_space c"
  proof
    fix c assume "c \<in> set ?T"
    then have "u_lower c \<in> set (u_toLowerCase ?T)" by (simp add: u_toLowerCase_def)
    then have "u_lower c \<in> u_lower ` set tok" by (simp add: lT) (simp add: u_toLowerCase_def)
    then obtain d where "d \<in> set tok" "u_lower c = u_lower d" by auto
    with nsp have "\<not> u_space (u_lower c)" by (simp add: u_space_lower)
    then show "\<not> u_space c" by (simp add: u_space_lower)
  qed
  from fit len have e: "i + ?n \<le> ?e" by simp
  have w: "slice t (i - 90) ?e = slice t (i - 90) i @ ?T @ slice t (i + ?n) ?e"
    using slice_split [of "i - 90" i ?e t] slice_split [of i "i + ?n" ?e t] e by simp
  let ?A = "slice t (i - 90) i"
  let ?B = "slice t (i + ?n) ?e"
  have hdT: "\<not> u_space (hd (?T @ ?B))" using Tne Tns by (cases ?T) auto
  have "collapse_ws (?A @ ?T @ ?B) = collapse_ws ?A @ collapse_ws (?T @ ?B)"
    using collapse_ws_append [of "?T @ ?B" ?A] Tne hdT by simp
  also have "\<dots> = collapse_ws ?A @ ?T @ collapse_ws ?B"
    using collapse_ws_nospace [OF Tns] by simp
  finally have c: "collapse_ws (slice t (i - 90) ?e) = collapse_ws ?A @ ?T @ collapse_ws ?B"
    by (simp add: w)
  have "\<not> u_space (hd ?T)" and "\<not> u_space (last ?T)" using Tne Tns by auto
  from trim_with_keep [OF Tne this]
  have "u_trim (collapse_ws (slice t (i - 90) ?e))
          = dropWhile u_space (collapse_ws ?A) @ ?T @ rev (dropWhile u_space (rev (collapse_ws ?B)))"
    by (simp add: u_trim_def c)
  then obtain P S where "buildSnippet t tokens = P @ ?T @ S"
    using buildSnippet_found [OF b]
    by (metis append.assoc)
  then have "u_toLowerCase (buildSnippet t tokens)
               = u_toLowerCase P @ u_toLowerCase tok @ u_toLowerCase S"
    using lT by (simp add: u_toLowerCase_def)
  then show ?thesis unfolding str_includes_iff by blast
qed

text \<open>
  Claim C7, as the code has it. Only the tokens of at least two code units
  count. When none of them occurs in the text (letter case ignored), the
  snippet is the text with its white space collapsed and trimmed, cut to 220
  code units and followed by an ellipsis when it was cut. Otherwise, with \<open>i\<close>
  the earliest index at which such a token occurs, the snippet is the text from
  index \<open>i - 90\<close> (or 0) to \<open>i + 180\<close> (or the end), white space collapsed and
  trimmed, with an ellipsis in front exactly when \<open>90 < i\<close> and one behind
  exactly when \<open>i + 180\<close> is before the end; it contains, letter case ignored,
  every token without white space and of at most 180 code units that occurs at
  \<open>i\<close>. A snippet never has more than 270 code units and two ellipses. For the
  text of the specification and the token \<^verbatim>\<open>tanjung\<close> the snippet contains
  \<^verbatim>\<open>tanjung pelepas\<close>.
\<close>

theorem buildSnippet_window:
  "(\<not> list_ex (\<lambda>tok. 2 \<le> length tok \<and> str_includes (u_toLowerCase t) (u_toLowerCase tok)) tokens
      \<longrightarrow> buildSnippet t tokens =
            (if 220 < length (u_trim (collapse_ws t))
             then take 220 (u_trim (collapse_ws t)) @ [Ellipsis]
             else u_trim (collapse_ws t)))
   \<and> (\<forall>i. token_at t tokens i \<and> (\<forall>j<i. \<not> token_at t tokens j) \<longrightarrow>
         buildSnippet t tokens =
           (if 90 < i then [Ellipsis] else [])
           @ u_trim (collapse_ws (slice t (i - 90) (min (length t) (i + 180))))
           @ (if i + 180 < length t then [Ellipsis] else [])
         \<and> (\<forall>tok\<in>set tokens.
               2 \<le> length tok \<and> length tok \<le> 180 \<and> (\<forall>c\<in>set tok. \<not> u_space c)
               \<and> occurs_at (u_toLowerCase t) (u_toLowerCase tok) i
               \<longrightarrow> str_includes (u_toLowerCase (buildSnippet t tokens)) (u_toLowerCase tok)))
   \<and> length (buildSnippet t tokens) \<le> 272
   \<and> str_includes (u_toLowerCase (buildSnippet example_shipment [ustr ''tanjung'']))
        (ustr ''tanjung pelepas'')"
proof -
  have a: "buildSnippet t tokens =
            (if 220 < length (u_trim (collapse_ws t))
             then take 220 (u_trim (collapse_ws t)) @ [Ellipsis]
             else u_trim (collapse_ws t))"
    if "\<not> list_ex (\<lambda>tok. 2 \<le> length tok \<and> str_includes (u_toLowerCase t) (u_toLowerCase tok)) tokens"
    using that by (simp add: best_index_None buildSnippet_fallback)
  have b: "buildSnippet t tokens =
           (if 90 < i then [Ellipsis] else [])
           @ u_trim (collapse_ws (slice t (i - 90) (min (length t) (i + 180))))
           @ (if i + 180 < length t then [Ellipsis] else [])
         \<and> (\<forall>tok\<in>set tokens.
               2 \<le> length tok \<and> length tok \<le> 180 \<and> (\<forall>c\<in>set tok. \<not> u_space c)
               \<and> occurs_at (u_toLowerCase t) (u_toLowerCase tok) i
               \<longrightarrow> str_includes (u_toLowerCase (buildSnippet t tokens)) (u_toLowerCase tok))"
    if "token_at t tokens i \<and> (\<forall>j<i. \<not> token_at t tokens j)" for i
  proof -
    from that have bi: "best_index t tokens = Some i" by (simp add: best_index_earliest)
    show ?thesis
      using buildSnippet_found [OF bi] snippet_contains_token [OF bi] by blast
  qed
  have c: "str_includes (u_toLowerCase (buildSnippet example_shipment [ustr ''tanjung'']))
        (ustr ''tanjung pelepas'')"
    by code_simp
  from a b c length_buildSnippet [of t tokens] show ?thesis by blast
qed

theorem buildSnippet_window_witness:
  "token_at example_shipment [ustr ''tanjung''] 27
   \<and> buildSnippet example_shipment [ustr ''tanjung''] = example_shipment
   \<and> str_includes (u_toLowerCase (buildSnippet example_shipment [ustr ''tanjung'']))
        (ustr ''tanjung'')"
proof -
  have a: "token_at example_shipment [ustr ''tanjung''] 27" by code_simp
  have b: "buildSnippet example_shipment [ustr ''tanjung''] = example_shipment" by code_simp
  have c: "str_includes (u_toLowerCase example_shipment) (ustr ''tanjung'')" by code_simp
  from buildSnippet_window [of example_shipment "[ustr ''tanjung'']"] a b c
  show ?thesis by simp
qed

text \<open>
  The claim as written fails twice. A token of one code unit that occurs in the
  text is not looked for: the snippet is the fallback, the first 220 code
  units. And the window is around the earliest occurrence of the token: a text
  that contains \<^verbatim>\<open>Tanjung Pelepas\<close> after an earlier \<^verbatim>\<open>tanjung\<close> has a snippet
  without \<^verbatim>\<open>tanjung pelepas\<close>.
\<close>

theorem buildSnippet_not_any_token:
  "str_includes (u_toLowerCase example_short_token) (u_toLowerCase (ustr ''a''))
   \<and> buildSnippet example_short_token [ustr ''a''] = take 220 example_short_token @ [Ellipsis]
   \<and> str_includes example_two_tanjung (ustr ''Tanjung Pelepas'')
   \<and> buildSnippet example_two_tanjung [ustr ''tanjung''] = take 180 example_two_tanjung @ [Ellipsis]
   \<and> \<not> str_includes (u_toLowerCase (buildSnippet example_two_tanjung [ustr ''tanjung'']))
          (ustr ''tanjung pelepas'')"
proof -
  have a: "str_includes (u_toLowerCase example_short_token) (u_toLowerCase (ustr ''a''))"
    by code_simp
  have b: "buildSnippet example_short_token [ustr ''a''] = take 220 example_short_token @ [Ellipsis]"
    by code_simp
  have c: "str_includes example_two_tanjung (ustr ''Tanjung Pelepas'')"
    by code_simp
  have d: "buildSnippet example_two_tanjung [ustr ''tanjung''] = take 180 example_two_tanjung @ [Ellipsis]"
    by code_simp
  have e: "\<not> str_includes (u_toLowerCase (buildSnippet example_two_tanjung [ustr ''tanjung'']))
          (ustr ''tanjung pelepas'')"
    by code_simp
  from a b c d e show ?thesis by simp
qed

section \<open>Building and searching the document index\<close>

lemma searchDocuments_no_docs: "docs idx = [] \<Longrightarrow> searchDocuments idx query limit = []"
  by (simp add: searchDocuments_def)

text \<open>
  Claim C8. \<^verbatim>\<open>buildDocIndex\<close> has no error result: a rejected \<^verbatim>\<open>readdir\<close>
  gives the empty listing and a file whose reading throws is skipped. When no
  PDF of the directory can be read, the index has no document, and
  \<^verbatim>\<open>searchDocuments\<close> on it returns the empty list for every query and limit.
\<close>

theorem zero_readable_pdfs:
  assumes "\<forall>f\<in>set (case readdir env of None \<Rightarrow> [] | Some fs \<Rightarrow> fs).
             is_pdf f \<longrightarrow> extract_text env f = None"
  shows "docs (buildDocIndex env) = []
       \<and> searchDocuments (buildDocIndex env) query limit = []"
proof -
  have "index_file env f = []"
    if "f \<in> set (filter is_pdf (case readdir env of None \<Rightarrow> [] | Some fs \<Rightarrow> fs))" for f
    using that assms by (auto simp: index_file_def)
  then have "docs (buildDocIndex env) = []"
    by (simp add: buildDocIndex_def Let_def)
  then show ?thesis by (simp add: searchDocuments_no_docs)
qed


theorem zero_readable_pdfs_witness:
  "filter is_pdf [ustr ''persons_P-0001.pdf'', ustr ''notes.txt''] = [ustr ''persons_P-0001.pdf'']
   \<and> docs (buildDocIndex example_unreadable) = []
   \<and> searchDocuments (buildDocIndex example_unreadable) (ustr ''tan'') None = []"
proof -
  have p: "filter is_pdf [ustr ''persons_P-0001.pdf'', ustr ''notes.txt''] = [ustr ''persons_P-0001.pdf'']"
    by code_simp
  have h: "\<forall>f\<in>set (case readdir example_unreadable of None \<Rightarrow> [] | Some fs \<Rightarrow> fs).
             is_pdf f \<longrightarrow> extract_text example_unreadable f = None"
    by (simp add: example_unreadable_def)
  from zero_readable_pdfs [OF h, of "ustr ''tan''" None] p show ?thesis by simp
qed

lemma length_slice_to: "0 \<le> l \<Longrightarrow> int (length (slice_to xs l)) \<le> l"
  by (simp add: slice_to_def)

lemma set_fold_set_add: "set (fold set_add xs acc) = set xs \<union> set acc"
  by (induction xs arbitrary: acc) (auto simp: set_add_def)

lemma dropWhile_trimmed: "dropWhile sp (trim_with sp s) = trim_with sp s"
proof -
  define X where "X = dropWhile sp s"
  define Y where "Y = dropWhile sp (rev X)"
  have t: "trim_with sp s = rev Y" by (simp add: trim_with_def X_def Y_def)
  show ?thesis
  proof (cases "Y = []")
    case True
    with t show ?thesis by simp
  next
    case False
    obtain A where A: "rev X = A @ Y"
      unfolding Y_def by (metis takeWhile_dropWhile_id)
    from False A have "last Y = last (rev X)" by simp
    moreover from False A have "X \<noteq> []" by auto
    ultimately have "last Y = hd X" by (simp add: last_rev)
    moreover from \<open>X \<noteq> []\<close> have "\<not> sp (hd X)" unfolding X_def by (rule hd_dropWhile)
    ultimately have "\<not> sp (hd (rev Y))" using False by (simp add: hd_rev)
    with False have "dropWhile sp (rev Y) = rev Y" by (cases "rev Y") auto
    with t show ?thesis by simp
  qed
qed

lemma trim_with_idem: "trim_with sp (trim_with sp s) = trim_with sp s"
proof -
  have "rev (dropWhile sp (rev (trim_with sp s))) = trim_with sp s"
    by (simp add: trim_with_def)
  then show ?thesis
    by (simp add: dropWhile_trimmed trim_with_def [of sp "trim_with sp s"])
qed

lemma parseQueryTokens_trimmed: "t \<in> set (parseQueryTokens q) \<Longrightarrow> u_trim t = t"
  by (auto simp: parseQueryTokens_def Let_def set_fold_set_add u_trim_def trim_with_idem
           split: if_splits)

lemma matched_terms_of_props:
  assumes "t \<in> set (matched_terms_of d tokens)"
  shows "t \<in> u_trim ` set tokens" and "2 \<le> length t"
    and "str_includes (search_blob d) (u_toLowerCase t)"
  using assms by (auto simp: matched_terms_of_def dest!: in_set_takeD)

text \<open>
  Claim C10, as the code has it. Without a limit \<^verbatim>\<open>searchDocuments\<close> returns
  at most 20 results, and with a limit that is not negative at most that many.
  Each result comes from a hit of the Fuse search; its \<^verbatim>\<open>matched_terms\<close> are
  at most 12, each a token of the query of length at least 2 whose lower case
  occurs in the \<^verbatim>\<open>_search_blob\<close> of the document, which \<^verbatim>\<open>buildDocIndex\<close> set
  to the lower case of file name, metadata text and body text, joined by line
  feeds.
\<close>

theorem searchDocuments_bounds:
  "(limit = None \<longrightarrow> length (searchDocuments idx query limit) \<le> 20)
   \<and> (\<forall>l. limit = Some l \<longrightarrow> 0 \<le> l \<longrightarrow> int (length (searchDocuments idx query limit)) \<le> l)
   \<and> (\<forall>r\<in>set (searchDocuments idx query limit).
        length (matched_terms r) \<le> 12
        \<and> (\<exists>h\<in>set (fuse idx (u_trim (join [L1 CHR '' ''] (parseQueryTokens query)))).
              r_doc_id r = doc_id (item h)
              \<and> (\<forall>t\<in>set (matched_terms r).
                    t \<in> set (parseQueryTokens query) \<and> 2 \<le> length t
                    \<and> str_includes (search_blob (item h)) (u_toLowerCase t))))
   \<and> (\<forall>d\<in>set (docs (buildDocIndex env)).
        search_blob d =
          u_toLowerCase (filename d @ [L1 (CHR 0x0A)] @ meta_text env (meta d)
                         @ [L1 (CHR 0x0A)] @ text_of d))"
proof -
  have a: "length (searchDocuments idx query None) \<le> 20"
    using length_slice_to [of 20] 
    by (auto simp: searchDocuments_def Let_def)
  have b: "int (length (searchDocuments idx query (Some l))) \<le> l" if "0 \<le> l" for l
    using length_slice_to [OF that] that
    by (auto simp: searchDocuments_def Let_def)
  have c: "length (matched_terms r) \<le> 12
        \<and> (\<exists>h\<in>set (fuse idx (u_trim (join [L1 CHR '' ''] (parseQueryTokens query)))).
              r_doc_id r = doc_id (item h)
              \<and> (\<forall>t\<in>set (matched_terms r).
                    t \<in> set (parseQueryTokens query) \<and> 2 \<le> length t
                    \<and> str_includes (search_blob (item h)) (u_toLowerCase t)))"
    if r: "r \<in> set (searchDocuments idx query limit)" for r
  proof -
    let ?tokens = "parseQueryTokens query"
    let ?q = "u_trim (join [L1 CHR '' ''] ?tokens)"
    from r obtain h where h: "h \<in> set (slice_to (fuse idx ?q) (case limit of None \<Rightarrow> 20 | Some l \<Rightarrow> l))"
      and rh: "r = render_hit ?tokens h"
      by (auto simp: searchDocuments_def Let_def split: if_splits)
    from h have hf: "h \<in> set (fuse idx ?q)"
      by (auto simp: slice_to_def split: if_splits dest: in_set_takeD)
    have len: "length (matched_terms r) \<le> 12"
      by (simp add: rh render_hit_def matched_terms_of_def)
    have mt: "t \<in> set ?tokens \<and> 2 \<le> length t
                \<and> str_includes (search_blob (item h)) (u_toLowerCase t)"
      if "t \<in> set (matched_terms r)" for t
    proof -
      from that have m: "t \<in> set (matched_terms_of (item h) ?tokens)"
        by (simp add: rh render_hit_def)
      from matched_terms_of_props(1) [OF m] obtain t0 where "t0 \<in> set ?tokens" "t = u_trim t0"
        by auto
      then have "t \<in> set ?tokens" by (simp add: parseQueryTokens_trimmed)
      with matched_terms_of_props(2,3) [OF m] show ?thesis by simp
    qed
    have "r_doc_id r = doc_id (item h)" by (simp add: rh render_hit_def)
    with hf len mt show ?thesis by blast
  qed
  have d: "search_blob d =
          u_toLowerCase (filename d @ [L1 (CHR 0x0A)] @ meta_text env (meta d)
                         @ [L1 (CHR 0x0A)] @ text_of d)"
    if "d \<in> set (docs (buildDocIndex env))" for d
    using that
    by (auto simp: buildDocIndex_def Let_def index_file_def split: option.splits)
  from a b c d show ?thesis by blast
qed


theorem searchDocuments_bounds_witness:
  "length (searchDocuments example_index (ustr ''tanjung'') (Some 1)) = 1
   \<and> length (searchDocuments example_index (ustr ''tanjung'') None) = 2
   \<and> map matched_terms (searchDocuments example_index (ustr ''tanjung'') (Some 1))
       = [[ustr ''tanjung'']]"
proof -
  have a: "length (searchDocuments example_index (ustr ''tanjung'') (Some 1)) = 1" by code_simp
  have b: "length (searchDocuments example_index (ustr ''tanjung'') None) = 2" by code_simp
  have c: "map matched_terms (searchDocuments example_index (ustr ''tanjung'') (Some 1))
       = [[ustr ''tanjung'']]" by code_simp
  from searchDocuments_bounds [of "Some 1" example_index "ustr ''tanjung''" example_unreadable] a b c
  show ?thesis by simp
qed

text \<open>The claim as written fails for a negative limit: \<^verbatim>\<open>slice(0, -1)\<close> drops
  the last hit only, so two hits give one result.\<close>

theorem searchDocuments_negative_limit:
  "length (searchDocuments example_index (ustr ''tanjung'') (Some (- 1))) = 1
   \<and> \<not> int (length (searchDocuments example_index (ustr ''tanjung'') (Some (- 1)))) \<le> - 1"
proof -
  have "length (searchDocuments example_index (ustr ''tanjung'') (Some (- 1))) = 1" by code_simp
  then show ?thesis by simp
qed

end
